theory Spec2Isabelle
  imports Main "HOL-Library.Sublist"
begin

section \<open>Auto-export: data model\<close>

text \<open>
  The embedding follows \<^verbatim>\<open>src/content/auto-export.ts\<close>. An auto-export record
  (\<^verbatim>\<open>ae\<close> in the source) lives in the collection \<^verbatim>\<open>autoexport\<close> of the database;
  its key is \<^verbatim>\<open>ae.$loki\<close>, its scope is \<^verbatim>\<open>ae.type\<close> and \<^verbatim>\<open>ae.id\<close>.
\<close>

datatype status = Scheduled | Running | Done

datatype scope = Collection | Library | OtherScope

record autoexport =
  ae_loki :: nat
  ae_type :: scope
  ae_id :: nat
  ae_path :: string
  ae_translatorID :: string
  ae_exportNotes :: bool
  ae_useJournalAbbreviation :: bool
  ae_status :: status
  ae_error :: string

datatype error = NotFound nat | TypeError

subsection \<open>The store\<close>

text \<open>
  Modelled from the spec: the database collection (\<^verbatim>\<open>./db/main.ts\<close>) is not among the
  sources. Section 6 of the specification lists its operations: \<^verbatim>\<open>get(id)\<close>,
  \<^verbatim>\<open>update(record)\<close>, \<^verbatim>\<open>insert(record)\<close>, \<^verbatim>\<open>remove(record)\<close>,
  \<^verbatim>\<open>removeWhere(predicate)\<close> and \<^verbatim>\<open>find(predicate)\<close>, which returns a sequence of
  records. The collection is the sequence of its records; a record is addressed by its
  key, and \<^verbatim>\<open>insert\<close> gives the new record a key no stored record has.
\<close>

type_synonym store = "autoexport list"

definition db_get :: "nat \<Rightarrow> store \<Rightarrow> autoexport option" where
  "db_get i db = find (\<lambda>d. ae_loki d = i) db"

definition db_update :: "autoexport \<Rightarrow> store \<Rightarrow> store" where
  "db_update ae db = map (\<lambda>d. if ae_loki d = ae_loki ae then ae else d) db"

definition fresh_loki :: "store \<Rightarrow> nat" where
  "fresh_loki db = Suc (fold max (map ae_loki db) 0)"

definition db_insert :: "autoexport \<Rightarrow> store \<Rightarrow> store" where
  "db_insert ae db = db @ [ae\<lparr>ae_loki := fresh_loki db\<rparr>]"

definition db_remove :: "autoexport \<Rightarrow> store \<Rightarrow> store" where
  "db_remove ae db = filter (\<lambda>d. ae_loki d \<noteq> ae_loki ae) db"

definition db_removeWhere :: "(autoexport \<Rightarrow> bool) \<Rightarrow> store \<Rightarrow> store" where
  "db_removeWhere P db = filter (\<lambda>d. \<not> P d) db"

definition db_find :: "(autoexport \<Rightarrow> bool) \<Rightarrow> store \<Rightarrow> autoexport list" where
  "db_find P db = filter P db"

subsection \<open>The collaborators of an export\<close>

text \<open>
  \<^verbatim>\<open>Translators.translate\<close>, the file system behind the detection of a git working
  directory and the platform's directory separator are parameters of the model. An export
  either completes (\<open>Inr ()\<close>) or rejects with an error whose rendering
  \<^verbatim>\<open>`${err}`\<close> is the string under \<open>Inl\<close>. Reading the git configuration beside the
  output file either throws (\<open>Inl\<close>), finds no file (\<open>Inr None\<close>), or finds one, with
  or without the URL of the remote \<^verbatim>\<open>origin\<close>.
\<close>

datatype items = ItemsCollection nat | ItemsLibrary nat | ItemsNull

record env =
  dirsep :: char
  translate :: "string \<Rightarrow> bool \<Rightarrow> bool \<Rightarrow> items \<Rightarrow> string \<Rightarrow> string + unit"
  git_config :: "string \<Rightarrow> string + string option option"

text \<open>\<^verbatim>\<open>s.split(c)\<close> and \<^verbatim>\<open>parts.join(c)\<close> for a separator of one character.\<close>

fun split_sep :: "char \<Rightarrow> string \<Rightarrow> string list" where
  "split_sep c [] = [[]]"
| "split_sep c (x # xs) =
     (if x = c then [] # split_sep c xs
      else (case split_sep c xs of [] \<Rightarrow> [[x]] | w # ws \<Rightarrow> (x # w) # ws))"

fun join_sep :: "char \<Rightarrow> string list \<Rightarrow> string" where
  "join_sep c [] = []"
| "join_sep c [w] = w"
| "join_sep c (w # ws) = w @ c # join_sep c ws"

text \<open>
  Lines 60 to 70: the directory of the output path, kept only if no git configuration is
  found there or its remote is an Overleaf URL; any exception gives \<^verbatim>\<open>null\<close>.
\<close>

definition overleaf_dir :: "env \<Rightarrow> string \<Rightarrow> string option" where
  "overleaf_dir e p =
     (let overleaf = join_sep (dirsep e) (butlast (split_sep (dirsep e) p)) in
      case git_config e (join_sep (dirsep e) [overleaf, ''.git'', ''config'']) of
        Inl err \<Rightarrow> None
      | Inr None \<Rightarrow> Some overleaf
      | Inr (Some None) \<Rightarrow> None
      | Inr (Some (Some url)) \<Rightarrow>
          (if url = [] \<or> \<not> prefix ''https://git.overleaf.com/'' url then None
           else Some overleaf))"

subsection \<open>The handler of the queue \<^verbatim>\<open>scheduled\<close>\<close>

definition export_items :: "autoexport \<Rightarrow> items" where
  "export_items ae =
     (case ae_type ae of
        Collection \<Rightarrow> ItemsCollection (ae_id ae)
      | Library \<Rightarrow> ItemsLibrary (ae_id ae)
      | OtherScope \<Rightarrow> ItemsNull)"

text \<open>
  Lines 36 to 87. The handler is run as one step: the export is a call that returns its
  outcome, and the record read at the start is the one written at the end. The model has
  no state in which an export is under way, so the run queue has no running worker between
  two steps.
\<close>

definition scheduled_handler :: "env \<Rightarrow> nat \<Rightarrow> store \<Rightarrow> (error + unit) \<times> store" where
  "scheduled_handler e i db =
     (case db_get i db of
        None \<Rightarrow> (Inl (NotFound i), db)
      | Some ae \<Rightarrow>
          (let ae1 = ae\<lparr>ae_status := Running\<rparr>;
               db1 = db_update ae1 db;
               items = export_items ae1;
               overleaf = overleaf_dir e (ae_path ae1);
               ae2 = (case translate e (ae_translatorID ae1) (ae_exportNotes ae1)
                             (ae_useJournalAbbreviation ae1) items (ae_path ae1) of
                        Inr u \<Rightarrow> ae1\<lparr>ae_error := []\<rparr>
                      | Inl err \<Rightarrow> ae1\<lparr>ae_error := err\<rparr>);
               ae3 = ae2\<lparr>ae_status := Done\<rparr>
           in (Inr (), db_update ae3 db1)))"

section \<open>The change router\<close>

record item =
  libraryID :: nat
  getCollections :: "nat list"

datatype event_msg =
    CollectionsChanged "nat list"
  | LibrariesChanged "nat list"
  | CollectionsRemoved "nat list"
  | LibrariesRemoved "nat list"

text \<open>
  A JavaScript \<^verbatim>\<open>Set\<close> keeps its members in the order of their first insertion, and
  \<^verbatim>\<open>Array.from\<close> lists them in that order.
\<close>

definition set_add :: "nat \<Rightarrow> nat list \<Rightarrow> nat list" where
  "set_add x xs = (if x \<in> set xs then xs else xs @ [x])"

text \<open>
  Modelled from the spec: the ancestor lookup
  (\<^verbatim>\<open>Zotero.Collections.get(collectionID).parentID\<close>) is not among the sources; section 6
  of the specification has it return, for a collection identity, the identity of its parent
  or none. It is the parameter \<open>parentID\<close> below.

  Lines 213 to 216. The loop \<^verbatim>\<open>while (collectionID)\<close> stops at a falsy identity: at
  none, and at the number \<open>0\<close>. Nothing bounds the walk, so a cycle of parents makes it
  run forever: the result \<open>None\<close>.
\<close>

partial_function (option) walk :: "(nat \<Rightarrow> nat option) \<Rightarrow> nat \<Rightarrow> nat list \<Rightarrow> nat list option" where
  "walk parentID collectionID collections =
     (if collectionID = 0 then Some collections
      else (case parentID collectionID of
              None \<Rightarrow> Some (set_add collectionID collections)
            | Some p \<Rightarrow> walk parentID p (set_add collectionID collections)))"

declare walk.simps [code]

text \<open>Lines 210 to 217: the loop over the collections of one item.\<close>

fun item_collections :: "(nat \<Rightarrow> nat option) \<Rightarrow> nat list \<Rightarrow> nat list \<Rightarrow> nat list option" where
  "item_collections parentID [] collections = Some collections"
| "item_collections parentID (c # cs) collections =
     (if c \<in> set collections then item_collections parentID cs collections
      else (case walk parentID c collections of
              None \<Rightarrow> None
            | Some collections' \<Rightarrow> item_collections parentID cs collections'))"

text \<open>Lines 207 to 218: the loop over the items, on the pair of sets \<^verbatim>\<open>changed\<close>.\<close>

fun changed_sets ::
  "(nat \<Rightarrow> nat option) \<Rightarrow> item list \<Rightarrow> nat list \<times> nat list \<Rightarrow> (nat list \<times> nat list) option" where
  "changed_sets parentID [] ch = Some ch"
| "changed_sets parentID (it # its) ch =
     (let libraries = set_add (libraryID it) (snd ch) in
      case item_collections parentID (getCollections it) (fst ch) of
        None \<Rightarrow> None
      | Some collections \<Rightarrow> changed_sets parentID its (collections, libraries))"

text \<open>Lines 201 to 222: the events \<^verbatim>\<open>changed(items)\<close> emits, in the order it emits them.\<close>

definition changed :: "(nat \<Rightarrow> nat option) \<Rightarrow> item list \<Rightarrow> event_msg list option" where
  "changed parentID its =
     (case changed_sets parentID its ([], []) of
        None \<Rightarrow> None
      | Some ch \<Rightarrow>
          Some ((if fst ch \<noteq> [] then [CollectionsChanged (fst ch)] else []) @
                (if snd ch \<noteq> [] then [LibrariesChanged (snd ch)] else [])))"

text \<open>
  The set the claim speaks of: a collection together with its chain of ancestors, as the
  reflexive transitive closure of the parent link.
\<close>

definition parent_rel :: "(nat \<Rightarrow> nat option) \<Rightarrow> (nat \<times> nat) set" where
  "parent_rel parentID = {(c, p). parentID c = Some p}"

definition ancestry :: "(nat \<Rightarrow> nat option) \<Rightarrow> nat \<Rightarrow> nat set" where
  "ancestry parentID c = {a. (c, a) \<in> (parent_rel parentID)\<^sup>*}"

definition touched :: "(nat \<Rightarrow> nat option) \<Rightarrow> item list \<Rightarrow> nat set" where
  "touched parentID its = (\<Union>it \<in> set its. \<Union>c \<in> set (getCollections it). ancestry parentID c)"

text \<open>A set of collections that holds the ancestors of each of its members.\<close>

definition ancestor_closed :: "(nat \<Rightarrow> nat option) \<Rightarrow> nat set \<Rightarrow> bool" where
  "ancestor_closed parentID S = (\<forall>c \<in> S. ancestry parentID c \<subseteq> S)"

text \<open>
  Collection identities are positive numbers, and every parent link leads to a collection
  of smaller depth: the collections form a forest.
\<close>

definition forest :: "(nat \<Rightarrow> nat option) \<Rightarrow> (nat \<Rightarrow> nat) \<Rightarrow> bool" where
  "forest parentID depth =
     (\<forall>c p. parentID c = Some p \<longrightarrow> p \<noteq> 0 \<and> depth p < depth c)"

section \<open>The queues\<close>

text \<open>
  The queue engine is the package \<^verbatim>\<open>better-queue\<close> with a memory store, which the
  source configures and calls but does not contain. The model keeps what the source relies
  on. A task is an object with the key \<^verbatim>\<open>id\<close>; objects live in a heap and are named by
  their address, because the handler of the debounce queue copies its task
  (\<^verbatim>\<open>task = {...task}\<close>) while the closure \<^verbatim>\<open>cancel()\<close> keeps the object it was given.
  A queue holds the flag \<^verbatim>\<open>_stopped\<close>, the option \<^verbatim>\<open>cancelIfRunning\<close>, the tasks that
  wait in its store (one per key, a later push with the same key replaces the earlier
  task), the workers that run (key and task object), and the failures its workers reported.
  One worker runs at a time (\<^verbatim>\<open>concurrent\<close> is left at 1).
\<close>

record task =
  task_id :: nat
  cancelled :: bool

record queue =
  stopped :: bool
  cancelIfRunning :: bool
  tasks :: "(nat \<times> nat) list"
  workers :: "(nat \<times> nat) list"
  task_failed :: "(nat \<times> error) list"

definition new_queue :: "bool \<Rightarrow> bool \<Rightarrow> queue" where
  "new_queue c b = \<lparr>stopped = b, cancelIfRunning = c, tasks = [], workers = [], task_failed = []\<rparr>"

definition pause :: "queue \<Rightarrow> queue" where
  "pause q = q\<lparr>stopped := True\<rparr>"

definition resume :: "queue \<Rightarrow> queue" where
  "resume q = q\<lparr>stopped := False\<rparr>"

text \<open>Line 27: the closure \<^verbatim>\<open>cancel() { task.cancelled = true }\<close> over the task at \<open>a\<close>.\<close>

definition handle_cancel :: "nat \<Rightarrow> task list \<Rightarrow> task list" where
  "handle_cancel a h = h[a := (h ! a)\<lparr>cancelled := True\<rparr>]"

text \<open>
  Cancelling the worker that runs the task of key \<open>i\<close>, if there is one: the engine calls
  the \<^verbatim>\<open>cancel\<close> of the object the process function returned and gives the worker up.
\<close>

definition cancel_worker :: "nat \<Rightarrow> queue \<times> task list \<Rightarrow> queue \<times> task list" where
  "cancel_worker i qh =
     (case map_of (workers (fst qh)) i of
        None \<Rightarrow> qh
      | Some a \<Rightarrow>
          ((fst qh)\<lparr>workers := filter (\<lambda>w. fst w \<noteq> i) (workers (fst qh))\<rparr>,
           handle_cancel a (snd qh)))"

text \<open>The store of a queue keeps one task per key; a task of a key it has takes its place.\<close>

definition store_put :: "nat \<Rightarrow> nat \<Rightarrow> (nat \<times> nat) list \<Rightarrow> (nat \<times> nat) list" where
  "store_put i a ts =
     (if i \<in> fst ` set ts then map (\<lambda>t. if fst t = i then (i, a) else t) ts
      else ts @ [(i, a)])"

text \<open>
  \<^verbatim>\<open>queue.push(task)\<close> for the task object at \<open>a\<close>: with \<^verbatim>\<open>cancelIfRunning\<close>,
  a running worker of the same key is cancelled; the task goes to the store. The engine
  does this in a later turn of the event loop; the model does it at the push, so it has
  no state in which a task is pushed and not yet stored.
\<close>

definition queue_push :: "nat \<Rightarrow> queue \<times> task list \<Rightarrow> queue \<times> task list" where
  "queue_push a qh =
     (let i = task_id (snd qh ! a);
          qh1 = (if cancelIfRunning (fst qh) then cancel_worker i qh else qh)
      in ((fst qh1)\<lparr>tasks := store_put i a (tasks (fst qh1))\<rparr>, snd qh1))"

text \<open>\<^verbatim>\<open>queue.cancel(id)\<close>: the running worker is cancelled, the waiting task deleted.\<close>

definition queue_cancel :: "nat \<Rightarrow> queue \<times> task list \<Rightarrow> queue \<times> task list" where
  "queue_cancel i qh =
     (let qh1 = cancel_worker i qh
      in ((fst qh1)\<lparr>tasks := filter (\<lambda>t. fst t \<noteq> i) (tasks (fst qh1))\<rparr>, snd qh1))"

text \<open>The next task a queue hands to its process function, if it may start one.\<close>

definition queue_next :: "queue \<Rightarrow> ((nat \<times> nat) \<times> queue) option" where
  "queue_next q =
     (if stopped q \<or> workers q \<noteq> [] then None
      else (case tasks q of
              [] \<Rightarrow> None
            | t # ts \<Rightarrow> Some (t, q\<lparr>tasks := ts, workers := [t]\<rparr>)))"

text \<open>
  Lines 18 to 24: the callback \<^verbatim>\<open>cb\<close> of the worker that was given the task at \<open>a\<close>.
  It ends the worker; \<^verbatim>\<open>cb(err)\<close> reports the task as failed. A worker that was cancelled
  is gone already.
\<close>

definition queue_cb :: "nat \<Rightarrow> error + unit \<Rightarrow> queue \<Rightarrow> queue" where
  "queue_cb a r q =
     (case find (\<lambda>w. snd w = a) (workers q) of
        None \<Rightarrow> q
      | Some w \<Rightarrow>
          q\<lparr>workers := remove1 w (workers q),
            task_failed := (case r of Inl err \<Rightarrow> task_failed q @ [(fst w, err)]
                                    | Inr u \<Rightarrow> task_failed q)\<rparr>)"

section \<open>The state of the module\<close>

datatype mode = Off | Immediate | Idle

datatype topic = Back | Active | IdleTopic

text \<open>
  The state: the store, the preference \<^verbatim>\<open>autoExport\<close>, the heap of task objects, the
  two queues, and the handlers of the debounce queue that are suspended in
  \<^verbatim>\<open>Zotero.Promise.delay\<close> (each with the task object it was given and its own copy).
  The field \<open>signal\<close> is the last notification of the idle service; the source does not
  store it, the claims about the environment signal speak of it.
\<close>

record state =
  DB :: store
  pref :: mode
  heap :: "task list"
  scheduler :: queue
  scheduled :: queue
  waits :: "(nat \<times> nat) list"
  signal :: "topic option"

text \<open>
  Lines 34 to 134, when the module is loaded: \<^verbatim>\<open>scheduled.resume()\<close>, and
  \<^verbatim>\<open>scheduler.pause()\<close> unless the preference is \<^verbatim>\<open>immediate\<close>. The flag \<open>b\<close> is
  the state in which the engine creates a queue.
\<close>

definition module_load :: "bool \<Rightarrow> mode \<Rightarrow> store \<Rightarrow> state" where
  "module_load b p d =
     \<lparr>DB = d, pref = p, heap = [],
      scheduler = (if p \<noteq> Immediate then pause (new_queue True b) else new_queue True b),
      scheduled = resume (new_queue False b),
      waits = [], signal = None\<rparr>"

subsection \<open>The handlers of the two queues\<close>

text \<open>
  Lines 101 to 113, up to the delay. The result is the error thrown, or the address of
  the copy the suspended handler holds.
\<close>

definition scheduler_handler_begin :: "nat \<Rightarrow> state \<Rightarrow> (error + nat) \<times> state" where
  "scheduler_handler_begin a s =
     (let c = length (heap s);
          s1 = s\<lparr>heap := heap s @ [heap s ! a]\<rparr>;
          i = task_id (heap s1 ! c)
      in case db_get i (DB s1) of
           None \<Rightarrow> (Inl (NotFound i), s1)
         | Some ae \<Rightarrow> (Inr c, s1\<lparr>DB := db_update (ae\<lparr>ae_status := Scheduled\<rparr>) (DB s1)\<rparr>))"

text \<open>Lines 115 to 122, after the delay: \<open>c\<close> is the handler's \<^verbatim>\<open>task\<close>, the copy.\<close>

definition scheduler_handler_end :: "nat \<Rightarrow> state \<Rightarrow> state" where
  "scheduler_handler_end c s =
     (if cancelled (heap s ! c) then s
      else (let qh = queue_push c (scheduled s, heap s)
            in s\<lparr>scheduled := fst qh, heap := snd qh\<rparr>))"

text \<open>
  Lines 14 to 30 around the handler of \<^verbatim>\<open>scheduler\<close>: the process function on the task
  at \<open>a\<close>. A rejected handler calls \<^verbatim>\<open>cb(err)\<close>; a suspended one is kept in \<open>waits\<close>.
\<close>

definition scheduler_process :: "nat \<Rightarrow> state \<Rightarrow> state" where
  "scheduler_process a s =
     (case scheduler_handler_begin a s of
        (Inl err, s1) \<Rightarrow> s1\<lparr>scheduler := queue_cb a (Inl err) (scheduler s1)\<rparr>
      | (Inr c, s1) \<Rightarrow> s1\<lparr>waits := waits s1 @ [(a, c)]\<rparr>)"

text \<open>The delay of a suspended handler elapses: the rest of the handler, then \<^verbatim>\<open>cb(null)\<close>.\<close>

definition wake :: "nat \<times> nat \<Rightarrow> state \<Rightarrow> state" where
  "wake w s =
     (if w \<notin> set (waits s) then s
      else (let s1 = scheduler_handler_end (snd w) (s\<lparr>waits := remove1 w (waits s)\<rparr>)
            in s1\<lparr>scheduler := queue_cb (fst w) (Inr ()) (scheduler s1)\<rparr>))"

text \<open>Lines 14 to 30 around the handler of \<^verbatim>\<open>scheduled\<close>.\<close>

definition scheduled_process :: "env \<Rightarrow> nat \<Rightarrow> state \<Rightarrow> state" where
  "scheduled_process e a s =
     (let r = scheduled_handler e (task_id (heap s ! a)) (DB s)
      in s\<lparr>DB := snd r, scheduled := queue_cb a (fst r) (scheduled s)\<rparr>)"

text \<open>A queue that is not stopped starts its next task.\<close>

definition scheduler_tick :: "state \<Rightarrow> state" where
  "scheduler_tick s =
     (case queue_next (scheduler s) of
        None \<Rightarrow> s
      | Some tq \<Rightarrow> scheduler_process (snd (fst tq)) (s\<lparr>scheduler := snd tq\<rparr>))"

definition scheduled_tick :: "env \<Rightarrow> state \<Rightarrow> state" where
  "scheduled_tick e s =
     (case queue_next (scheduled s) of
        None \<Rightarrow> s
      | Some tq \<Rightarrow> scheduled_process e (snd (fst tq)) (s\<lparr>scheduled := snd tq\<rparr>))"

subsection \<open>The trigger controller\<close>

text \<open>Lines 143 to 157.\<close>

definition observe :: "topic \<Rightarrow> state \<Rightarrow> state" where
  "observe t s =
     (let s0 = s\<lparr>signal := Some t\<rparr> in
      if pref s0 \<noteq> Idle then s0
      else (case t of
              Back \<Rightarrow> s0\<lparr>scheduler := pause (scheduler s0)\<rparr>
            | Active \<Rightarrow> s0\<lparr>scheduler := pause (scheduler s0)\<rparr>
            | IdleTopic \<Rightarrow> s0\<lparr>scheduler := resume (scheduler s0)\<rparr>))"

text \<open>Lines 161 to 173: the handler of \<^verbatim>\<open>preference-changed\<close>.\<close>

definition preference_changed :: "string \<Rightarrow> state \<Rightarrow> state" where
  "preference_changed name s =
     (if name \<noteq> ''autoExport'' then s
      else (case pref s of
              Immediate \<Rightarrow> s\<lparr>scheduler := resume (scheduler s)\<rparr>
            | Off \<Rightarrow> s\<lparr>scheduler := pause (scheduler s)\<rparr>
            | Idle \<Rightarrow> s\<lparr>scheduler := pause (scheduler s)\<rparr>))"

text \<open>Setting the preference fires the event.\<close>

definition set_autoExport :: "mode \<Rightarrow> state \<Rightarrow> state" where
  "set_autoExport m s = preference_changed ''autoExport'' (s\<lparr>pref := m\<rparr>)"

subsection \<open>The coordinator\<close>

text \<open>\<^verbatim>\<open>scheduler.push({ id })\<close> and \<^verbatim>\<open>scheduled.push({ id })\<close> with a new task object.\<close>

definition scheduler_push :: "nat \<Rightarrow> state \<Rightarrow> state" where
  "scheduler_push i s =
     (let qh = queue_push (length (heap s))
                 (scheduler s, heap s @ [\<lparr>task_id = i, cancelled = False\<rparr>])
      in s\<lparr>scheduler := fst qh, heap := snd qh\<rparr>)"

definition scheduled_push :: "nat \<Rightarrow> state \<Rightarrow> state" where
  "scheduled_push i s =
     (let qh = queue_push (length (heap s))
                 (scheduled s, heap s @ [\<lparr>task_id = i, cancelled = False\<rparr>])
      in s\<lparr>scheduled := fst qh, heap := snd qh\<rparr>)"

text \<open>Lines 186 to 193.\<close>

definition AutoExport_init :: "state \<Rightarrow> state" where
  "AutoExport_init s =
     (let s1 = fold (\<lambda>ae. scheduler_push (ae_loki ae))
                 (db_find (\<lambda>d. ae_status d \<noteq> Done) (DB s)) s
      in if pref s1 = Immediate then s1\<lparr>scheduler := resume (scheduler s1)\<rparr> else s1)"

text \<open>Lines 195 to 199.\<close>

definition AutoExport_add :: "autoexport \<Rightarrow> state \<Rightarrow> state" where
  "AutoExport_add ae s =
     s\<lparr>DB := db_insert ae (db_removeWhere (\<lambda>d. ae_path d = ae_path ae) (DB s))\<rparr>"

text \<open>The query \<^verbatim>\<open>{ type, id: { $in: ids } }\<close>.\<close>

definition matches :: "scope \<Rightarrow> nat list \<Rightarrow> autoexport \<Rightarrow> bool" where
  "matches ty ids d = (ae_type d = ty \<and> ae_id d \<in> set ids)"

text \<open>Lines 224 to 230.\<close>

definition AutoExport_schedule :: "scope \<Rightarrow> nat list \<Rightarrow> state \<Rightarrow> state" where
  "AutoExport_schedule ty ids s =
     fold (\<lambda>ae. scheduler_push (ae_loki ae)) (db_find (matches ty ids) (DB s)) s"

text \<open>\<^verbatim>\<open>scheduled.cancel(id)\<close> and \<^verbatim>\<open>scheduler.cancel(id)\<close>.\<close>

definition scheduled_cancel :: "nat \<Rightarrow> state \<Rightarrow> state" where
  "scheduled_cancel i s =
     (let qh = queue_cancel i (scheduled s, heap s)
      in s\<lparr>scheduled := fst qh, heap := snd qh\<rparr>)"

definition scheduler_cancel :: "nat \<Rightarrow> state \<Rightarrow> state" where
  "scheduler_cancel i s =
     (let qh = queue_cancel i (scheduler s, heap s)
      in s\<lparr>scheduler := fst qh, heap := snd qh\<rparr>)"

text \<open>Lines 235 to 237: the body of the loop of \<^verbatim>\<open>remove\<close>.\<close>

definition remove_one :: "autoexport \<Rightarrow> state \<Rightarrow> state" where
  "remove_one ae s =
     (let s1 = scheduled_cancel (ae_loki ae) s;
          s2 = scheduler_cancel (ae_loki ae) s1
      in s2\<lparr>DB := db_remove ae (DB s2)\<rparr>)"

text \<open>Lines 232 to 239.\<close>

definition AutoExport_remove :: "scope \<Rightarrow> nat list \<Rightarrow> state \<Rightarrow> state" where
  "AutoExport_remove ty ids s = fold remove_one (db_find (matches ty ids) (DB s)) s"

text \<open>
  Lines 241 to 248. The argument is a key or a record; a key the store does not have
  leaves \<^verbatim>\<open>ae\<close> undefined, and the assignment to \<^verbatim>\<open>ae.status\<close> throws.
\<close>

definition AutoExport_run :: "nat + autoexport \<Rightarrow> state \<Rightarrow> error + state" where
  "AutoExport_run arg s =
     (case (case arg of Inl i \<Rightarrow> db_get i (DB s) | Inr r \<Rightarrow> Some r) of
        None \<Rightarrow> Inl TypeError
      | Some ae \<Rightarrow>
          Inr (scheduled_push (ae_loki ae)
                 (s\<lparr>DB := db_update (ae\<lparr>ae_status := Scheduled\<rparr>) (DB s)\<rparr>)))"

text \<open>Lines 180 to 183: the subscriptions of the constructor.\<close>

definition dispatch :: "event_msg \<Rightarrow> state \<Rightarrow> state" where
  "dispatch m s =
     (case m of
        LibrariesChanged ids \<Rightarrow> AutoExport_schedule Library ids s
      | LibrariesRemoved ids \<Rightarrow> AutoExport_remove Library ids s
      | CollectionsChanged ids \<Rightarrow> AutoExport_schedule Collection ids s
      | CollectionsRemoved ids \<Rightarrow> AutoExport_remove Collection ids s)"

subsection \<open>Runs of the module\<close>

text \<open>
  What can happen to the module: a call of the coordinator, an event on the bus, a
  change of the preference, a notification of the idle service, a queue starting its next
  task, the delay of a suspended handler elapsing.
\<close>

datatype event =
    Init
  | Add autoexport
  | Run "nat + autoexport"
  | Emit event_msg
  | SetAutoExport mode
  | PreferenceChanged string
  | Observe topic
  | SchedulerTick
  | ScheduledTick
  | Wake "nat \<times> nat"

definition step :: "env \<Rightarrow> event \<Rightarrow> state \<Rightarrow> state" where
  "step e ev s =
     (case ev of
        Init \<Rightarrow> AutoExport_init s
      | Add ae \<Rightarrow> AutoExport_add ae s
      | Run arg \<Rightarrow> (case AutoExport_run arg s of Inl err \<Rightarrow> s | Inr s' \<Rightarrow> s')
      | Emit m \<Rightarrow> dispatch m s
      | SetAutoExport m \<Rightarrow> set_autoExport m s
      | PreferenceChanged name \<Rightarrow> preference_changed name s
      | Observe t \<Rightarrow> observe t s
      | SchedulerTick \<Rightarrow> scheduler_tick s
      | ScheduledTick \<Rightarrow> scheduled_tick e s
      | Wake w \<Rightarrow> wake w s)"

definition exec :: "env \<Rightarrow> event list \<Rightarrow> state \<Rightarrow> state" where
  "exec e evs s = fold (step e) evs s"

text \<open>The task object an event hands to a process function, if it starts one.\<close>

definition started :: "event \<Rightarrow> state \<Rightarrow> nat option" where
  "started ev s =
     (case ev of
        SchedulerTick \<Rightarrow> map_option (\<lambda>tq. snd (fst tq)) (queue_next (scheduler s))
      | ScheduledTick \<Rightarrow> map_option (\<lambda>tq. snd (fst tq)) (queue_next (scheduled s))
      | _ \<Rightarrow> None)"

subsection \<open>What the trigger controller governs\<close>

text \<open>The preference, the last signal of the environment, and the flag of the debounce queue.\<close>

definition trig :: "state \<Rightarrow> mode \<times> topic option \<times> bool" where
  "trig s = (pref s, signal s, stopped (scheduler s))"

definition trigger_inv :: "state \<Rightarrow> bool" where
  "trigger_inv s =
     ((pref s = Off \<longrightarrow> stopped (scheduler s)) \<and>
      (pref s = Immediate \<longrightarrow> \<not> stopped (scheduler s)) \<and>
      (pref s = Idle \<and> \<not> stopped (scheduler s) \<longrightarrow> signal s = Some IdleTopic))"

section \<open>Example data\<close>

text \<open>A record, two export collaborators and a loaded module, for the concrete runs below.\<close>

definition example_ae :: autoexport where
  "example_ae =
     \<lparr>ae_loki = 1, ae_type = Collection, ae_id = 7, ae_path = ''/home/u/paper/refs.bib'',
      ae_translatorID = ''bibtex'', ae_exportNotes = False,
      ae_useJournalAbbreviation = False, ae_status = Done, ae_error = []\<rparr>"

definition env_ok :: env where
  "env_ok = \<lparr>dirsep = CHR ''/'', translate = (\<lambda>t n j i p. Inr ()),
             git_config = (\<lambda>p. Inr None)\<rparr>"

definition env_fail :: env where
  "env_fail = \<lparr>dirsep = CHR ''/'', translate = (\<lambda>t n j i p. Inl ''disk full''),
               git_config = (\<lambda>p. Inl ''no such directory'')\<rparr>"

text \<open>Collection 3 in collection 2 in collection 1, and an item of library 9 in collection 3.\<close>

definition nested_parent :: "nat \<Rightarrow> nat option" where
  "nested_parent c = (if c = 3 then Some 2 else if c = 2 then Some 1 else None)"

definition nested_item :: item where
  "nested_item = \<lparr>libraryID = 9, getCollections = [3]\<rparr>"

text \<open>The module loaded and initialised in mode \<^verbatim>\<open>immediate\<close>, with the one record.\<close>

definition example_state :: state where
  "example_state = AutoExport_init (module_load False Immediate [example_ae])"

text \<open>The module loaded in mode \<^verbatim>\<open>immediate\<close> with a record a previous run left \<open>Running\<close>.\<close>

definition example_interrupted :: state where
  "example_interrupted = module_load False Immediate [example_ae\<lparr>ae_status := Running\<rparr>]"

text \<open>
  Two changes of collection 7, each followed by the debounce queue starting the task that
  was pushed: the second push arrives while the first handler waits.
\<close>

definition burst :: "event list" where
  "burst = [Emit (CollectionsChanged [7]), SchedulerTick,
            Emit (CollectionsChanged [7]), SchedulerTick]"

text \<open>
  Collection 7 changes, the debounce queue starts the task, and collection 7 is removed
  while the handler waits.
\<close>

definition removed_in_flight :: "event list" where
  "removed_in_flight = [Emit (CollectionsChanged [7]), SchedulerTick,
                        Emit (CollectionsRemoved [7])]"

text \<open>
  The preference set to \<^verbatim>\<open>idle\<close> and the environment reporting \<^verbatim>\<open>idle\<close>, in
  either order.
\<close>

definition idle_then_mode :: "event list" where
  "idle_then_mode = [Observe IdleTopic, SetAutoExport Idle]"

definition mode_then_idle :: "event list" where
  "mode_then_idle = [SetAutoExport Idle, Observe IdleTopic]"

section \<open>Properties of the run executor\<close>

lemma db_get_update:
  "db_get i db = Some ae \<Longrightarrow> ae_loki ae' = i \<Longrightarrow> db_get i (db_update ae' db) = Some ae'"
  by (induction db) (auto simp: db_get_def db_update_def split: if_splits)

lemma db_get_loki: "db_get i db = Some ae \<Longrightarrow> ae_loki ae = i"
  by (induction db) (auto simp: db_get_def split: if_splits)

lemma db_update_update:
  "ae_loki ae' = ae_loki ae \<Longrightarrow> db_update ae' (db_update ae db) = db_update ae' db"
  by (induction db) (auto simp: db_update_def)

text \<open>
  Claim C4. When the run executor finds the record of its task, an export that rejects
  leaves the error's rendering in the record's last error, an export that completes
  leaves the empty string there; either way the handler itself completes (it does not
  throw), and the store holds the record with status \<open>Done\<close>.
\<close>

theorem run_executor_contains_failure:
  assumes "db_get i db = Some ae"
  shows "fst (scheduled_handler e i db) = Inr () \<and>
         (\<forall>err. translate e (ae_translatorID ae) (ae_exportNotes ae)
                  (ae_useJournalAbbreviation ae) (export_items ae) (ae_path ae) = Inl err \<longrightarrow>
                db_get i (snd (scheduled_handler e i db)) =
                  Some (ae\<lparr>ae_status := Done, ae_error := err\<rparr>)) \<and>
         (translate e (ae_translatorID ae) (ae_exportNotes ae)
            (ae_useJournalAbbreviation ae) (export_items ae) (ae_path ae) = Inr () \<longrightarrow>
          db_get i (snd (scheduled_handler e i db)) =
            Some (ae\<lparr>ae_status := Done, ae_error := []\<rparr>))"
proof -
  have k: "ae_loki ae = i"
    using assms by (rule db_get_loki)
  have items: "export_items (ae\<lparr>ae_status := Running\<rparr>) = export_items ae"
    by (simp add: export_items_def split: scope.splits)
  have stored: "db_get i (db_update ae' (db_update (ae\<lparr>ae_status := Running\<rparr>) db)) = Some ae'"
    if "ae_loki ae' = i" for ae'
    using that k assms by (simp add: db_update_update db_get_update)
  show ?thesis
    using assms k by (auto simp: scheduled_handler_def Let_def items stored split: sum.splits)
qed

theorem run_executor_contains_failure_witness:
  "fst (scheduled_handler env_fail 1 [example_ae]) = Inr () \<and>
   db_get 1 (snd (scheduled_handler env_fail 1 [example_ae])) =
     Some (example_ae\<lparr>ae_status := Done, ae_error := ''disk full''\<rparr>) \<and>
   db_get 1 (snd (scheduled_handler env_ok 1 [example_ae\<lparr>ae_error := ''old''\<rparr>])) =
     Some (example_ae\<lparr>ae_status := Done, ae_error := []\<rparr>)"
proof -
  have a: "db_get 1 [example_ae] = Some example_ae"
    by (simp add: db_get_def example_ae_def)
  have b: "db_get 1 [example_ae\<lparr>ae_error := ''old''\<rparr>] = Some (example_ae\<lparr>ae_error := ''old''\<rparr>)"
    by (simp add: db_get_def example_ae_def)
  show ?thesis
    using run_executor_contains_failure [OF a, of env_fail]
      run_executor_contains_failure [OF b, of env_ok]
    by (simp add: env_fail_def env_ok_def example_ae_def)
qed

section \<open>Properties of the coordinator's store operations\<close>

text \<open>
  Claim C8. \<^verbatim>\<open>add(ae)\<close> removes every stored record with the output path of
  \<open>ae\<close> and inserts \<open>ae\<close>: afterwards a search for that path finds one record, the
  one just inserted (under the key the store gave it), and the records of other paths
  are the ones there were.
\<close>

theorem add_then_find_by_path:
  "db_find (\<lambda>d. ae_path d = ae_path ae) (DB (AutoExport_add ae s)) =
     [ae\<lparr>ae_loki := fresh_loki (db_removeWhere (\<lambda>d. ae_path d = ae_path ae) (DB s))\<rparr>] \<and>
   db_find (\<lambda>d. ae_path d \<noteq> ae_path ae) (DB (AutoExport_add ae s)) =
     db_find (\<lambda>d. ae_path d \<noteq> ae_path ae) (DB s)"
  by (simp add: AutoExport_add_def db_find_def db_insert_def db_removeWhere_def)

theorem add_then_find_by_path_witness:
  "db_find (\<lambda>d. ae_path d = ae_path example_ae)
     (DB (AutoExport_add (example_ae\<lparr>ae_translatorID := ''csl''\<rparr>) example_state)) =
     [example_ae\<lparr>ae_translatorID := ''csl'', ae_loki := 1\<rparr>]"
proof -
  have "fresh_loki (db_removeWhere (\<lambda>d. ae_path d = ae_path (example_ae\<lparr>ae_translatorID := ''csl''\<rparr>))
          (DB example_state)) = 1"
    by code_simp
  then show ?thesis
    using add_then_find_by_path [of "example_ae\<lparr>ae_translatorID := ''csl''\<rparr>" example_state]
    by simp
qed

section \<open>Properties of the trigger controller\<close>

lemma fold_keeps: "(\<And>x s. g (f x s) = g s) \<Longrightarrow> g (fold f xs s) = g s"
  by (induction xs arbitrary: s) simp_all

lemma stopped_cancel_worker [simp]: "stopped (fst (cancel_worker i qh)) = stopped (fst qh)"
  by (simp add: cancel_worker_def split: option.splits)

lemma stopped_queue_push [simp]: "stopped (fst (queue_push a qh)) = stopped (fst qh)"
  by (simp add: queue_push_def Let_def)

lemma stopped_queue_cancel [simp]: "stopped (fst (queue_cancel i qh)) = stopped (fst qh)"
  by (simp add: queue_cancel_def Let_def)

lemma stopped_queue_cb [simp]: "stopped (queue_cb a r q) = stopped q"
  by (simp add: queue_cb_def split: option.splits)

lemma stopped_queue_next: "queue_next q = Some tq \<Longrightarrow> stopped (snd tq) = stopped q"
  by (auto simp: queue_next_def split: if_splits list.splits)

lemma trig_scheduler_push [simp]: "trig (scheduler_push i s) = trig s"
  by (simp add: trig_def scheduler_push_def Let_def)

lemma trig_scheduled_push [simp]: "trig (scheduled_push i s) = trig s"
  by (simp add: trig_def scheduled_push_def Let_def)

lemma trig_remove_one [simp]: "trig (remove_one ae s) = trig s"
  by (simp add: trig_def remove_one_def scheduler_cancel_def scheduled_cancel_def Let_def)

lemma trig_schedule [simp]: "trig (AutoExport_schedule ty ids s) = trig s"
  unfolding AutoExport_schedule_def by (rule fold_keeps) simp

lemma trig_remove [simp]: "trig (AutoExport_remove ty ids s) = trig s"
  unfolding AutoExport_remove_def by (rule fold_keeps) simp

lemma trig_dispatch [simp]: "trig (dispatch m s) = trig s"
  by (cases m) (simp_all add: dispatch_def)

lemma trig_add [simp]: "trig (AutoExport_add ae s) = trig s"
  by (simp add: trig_def AutoExport_add_def)

lemma trig_run: "AutoExport_run arg s = Inr s' \<Longrightarrow> trig s' = trig s"
  by (auto simp: AutoExport_run_def trig_def scheduled_push_def Let_def split: option.splits)

lemma trig_scheduler_process [simp]: "trig (scheduler_process a s) = trig s"
  by (simp add: trig_def scheduler_process_def scheduler_handler_begin_def Let_def
      split: option.splits)

lemma trig_scheduler_tick [simp]: "trig (scheduler_tick s) = trig s"
proof (cases "queue_next (scheduler s)")
  case None
  then show ?thesis by (simp add: scheduler_tick_def)
next
  case (Some tq)
  have "trig (scheduler_tick s) = trig (s\<lparr>scheduler := snd tq\<rparr>)"
    using Some by (simp add: scheduler_tick_def)
  also have "\<dots> = trig s"
    using stopped_queue_next [OF Some] by (simp add: trig_def)
  finally show ?thesis .
qed

lemma trig_scheduled_tick [simp]: "trig (scheduled_tick e s) = trig s"
  by (simp add: scheduled_tick_def scheduled_process_def trig_def Let_def split: option.splits)

lemma trig_wake [simp]: "trig (wake w s) = trig s"
  by (simp add: wake_def scheduler_handler_end_def trig_def Let_def)

lemma trig_init:
  "trig (AutoExport_init s) = (pref s, signal s, pref s \<noteq> Immediate \<and> stopped (scheduler s))"
proof -
  have "trig (fold (\<lambda>ae. scheduler_push (ae_loki ae)) xs s) = trig s" for xs
    by (rule fold_keeps) simp
  then show ?thesis
    by (auto simp: AutoExport_init_def Let_def trig_def resume_def)
qed

lemma trigger_inv_trig: "trig s' = trig s \<Longrightarrow> trigger_inv s' = trigger_inv s"
  by (simp add: trig_def trigger_inv_def)

lemma trigger_inv_step: "trigger_inv s \<Longrightarrow> trigger_inv (step e ev s)"
proof (cases ev)
  case Init
  then show "trigger_inv s \<Longrightarrow> ?thesis"
    using trig_init [of s] by (auto simp: step_def trigger_inv_def trig_def)
next
  case (Run arg)
  then show "trigger_inv s \<Longrightarrow> ?thesis"
    by (auto simp: step_def split: sum.splits dest!: trig_run dest: trigger_inv_trig)
next
  case (SetAutoExport m)
  then show ?thesis
    by (cases m) (simp_all add: step_def set_autoExport_def preference_changed_def
        trigger_inv_def pause_def resume_def)
next
  case (PreferenceChanged name)
  then show "trigger_inv s \<Longrightarrow> ?thesis"
    by (cases "pref s") (auto simp: step_def preference_changed_def
        trigger_inv_def pause_def resume_def)
next
  case (Observe t)
  then show "trigger_inv s \<Longrightarrow> ?thesis"
    by (cases t) (auto simp: step_def observe_def Let_def trigger_inv_def pause_def resume_def)
next
  case (Add ae)
  then show "trigger_inv s \<Longrightarrow> ?thesis"
    by (simp add: step_def trigger_inv_trig [OF trig_add])
next
  case (Emit m)
  then show "trigger_inv s \<Longrightarrow> ?thesis"
    by (simp add: step_def trigger_inv_trig [OF trig_dispatch])
next
  case SchedulerTick
  then show "trigger_inv s \<Longrightarrow> ?thesis"
    by (simp add: step_def trigger_inv_trig [OF trig_scheduler_tick])
next
  case ScheduledTick
  then show "trigger_inv s \<Longrightarrow> ?thesis"
    by (simp add: step_def trigger_inv_trig [OF trig_scheduled_tick])
next
  case (Wake w)
  then show "trigger_inv s \<Longrightarrow> ?thesis"
    by (simp add: step_def trigger_inv_trig [OF trig_wake])
qed

lemma trigger_inv_exec: "trigger_inv s \<Longrightarrow> trigger_inv (exec e evs s)"
  unfolding exec_def by (induction evs arbitrary: s) (simp_all add: trigger_inv_step)

lemma trigger_inv_init: "trigger_inv (AutoExport_init (module_load b p d))"
  using trig_init [of "module_load b p d"]
  by (cases p) (auto simp: trigger_inv_def trig_def module_load_def pause_def new_queue_def)

lemma observe_effect:
  "signal (step e (Observe t) s) = Some t \<and> pref (step e (Observe t) s) = pref s \<and>
   stopped (scheduler (step e (Observe t) s)) =
     (if pref s = Idle then t \<noteq> IdleTopic else stopped (scheduler s))"
  by (cases t) (simp_all add: step_def observe_def Let_def pause_def resume_def)

lemma set_autoExport_effect:
  "pref (step e (SetAutoExport m) s) = m \<and>
   stopped (scheduler (step e (SetAutoExport m) s)) = (m \<noteq> Immediate)"
  by (cases m) (simp_all add: step_def set_autoExport_def preference_changed_def
      pause_def resume_def)

lemma preference_changed_effect:
  "pref (step e (PreferenceChanged name) s) = pref s \<and>
   stopped (scheduler (step e (PreferenceChanged name) s)) =
     (if name = ''autoExport'' then pref s \<noteq> Immediate else stopped (scheduler s))"
  by (cases "pref s") (simp_all add: step_def preference_changed_def pause_def resume_def)

lemma other_events_keep_trig:
  assumes "trigger_inv s"
    and "\<forall>t. ev \<noteq> Observe t" and "\<forall>m. ev \<noteq> SetAutoExport m"
    and "\<forall>name. ev \<noteq> PreferenceChanged name"
  shows "trig (step e ev s) = trig s"
proof (cases ev)
  case Init
  then show ?thesis
    using assms(1) trig_init [of s] by (auto simp: step_def trigger_inv_def trig_def)
next
  case (Run arg)
  then show ?thesis
    by (auto simp: step_def split: sum.splits dest: trig_run)
next
  case (SetAutoExport m)
  then show ?thesis using assms(3) by simp
next
  case (PreferenceChanged name)
  then show ?thesis using assms(4) by simp
next
  case (Observe t)
  then show ?thesis using assms(2) by simp
qed (simp_all add: step_def)

text \<open>
  Claim C6, as the source has it. In every state the module reaches after \<^verbatim>\<open>init()\<close>:
  in mode \<open>Off\<close> the debounce queue is stopped and in mode \<open>Immediate\<close> it is not; in
  mode \<open>Idle\<close> it runs only if the last notification was \<^verbatim>\<open>idle\<close>. A notification
  is recorded as the last signal; in mode \<open>Idle\<close> it resumes the queue if it is
  \<^verbatim>\<open>idle\<close> and pauses it if it is \<^verbatim>\<open>active\<close> or \<^verbatim>\<open>back\<close>, and in the other
  modes it leaves the flag alone. Setting the preference resumes the queue for
  \<open>Immediate\<close> and pauses it for \<open>Off\<close> and for \<open>Idle\<close>, as does the event
  \<^verbatim>\<open>preference-changed\<close> for \<^verbatim>\<open>autoExport\<close>. No other event changes the mode, the
  signal or the flag.
\<close>

theorem trigger_controller_sets_flag:
  fixes e evs b p d
  defines "s \<equiv> exec e evs (AutoExport_init (module_load b p d))"
  shows "(pref s = Off \<longrightarrow> stopped (scheduler s)) \<and>
         (pref s = Immediate \<longrightarrow> \<not> stopped (scheduler s)) \<and>
         (pref s = Idle \<and> \<not> stopped (scheduler s) \<longrightarrow> signal s = Some IdleTopic) \<and>
         (\<forall>t. signal (step e (Observe t) s) = Some t \<and>
              pref (step e (Observe t) s) = pref s \<and>
              stopped (scheduler (step e (Observe t) s)) =
                (if pref s = Idle then t \<noteq> IdleTopic else stopped (scheduler s))) \<and>
         (\<forall>m. pref (step e (SetAutoExport m) s) = m \<and>
              stopped (scheduler (step e (SetAutoExport m) s)) = (m \<noteq> Immediate)) \<and>
         (\<forall>name. pref (step e (PreferenceChanged name) s) = pref s \<and>
              stopped (scheduler (step e (PreferenceChanged name) s)) =
                (if name = ''autoExport'' then pref s \<noteq> Immediate else stopped (scheduler s))) \<and>
         (\<forall>ev. (\<forall>t. ev \<noteq> Observe t) \<and> (\<forall>m. ev \<noteq> SetAutoExport m) \<and>
               (\<forall>name. ev \<noteq> PreferenceChanged name) \<longrightarrow>
               trig (step e ev s) = trig s)"
proof -
  have inv: "trigger_inv s"
    unfolding s_def by (rule trigger_inv_exec) (rule trigger_inv_init)
  have a1: "pref s = Off \<longrightarrow> stopped (scheduler s)"
    and a2: "pref s = Immediate \<longrightarrow> \<not> stopped (scheduler s)"
    and a3: "pref s = Idle \<and> \<not> stopped (scheduler s) \<longrightarrow> signal s = Some IdleTopic"
    using inv by (simp_all add: trigger_inv_def)
  have c: "\<forall>t. signal (step e (Observe t) s) = Some t \<and>
              pref (step e (Observe t) s) = pref s \<and>
              stopped (scheduler (step e (Observe t) s)) =
                (if pref s = Idle then t \<noteq> IdleTopic else stopped (scheduler s))"
    by (rule allI) (rule observe_effect)
  have d: "\<forall>m. pref (step e (SetAutoExport m) s) = m \<and>
              stopped (scheduler (step e (SetAutoExport m) s)) = (m \<noteq> Immediate)"
    by (rule allI) (rule set_autoExport_effect)
  have f: "\<forall>name. pref (step e (PreferenceChanged name) s) = pref s \<and>
              stopped (scheduler (step e (PreferenceChanged name) s)) =
                (if name = ''autoExport'' then pref s \<noteq> Immediate else stopped (scheduler s))"
    by (rule allI) (rule preference_changed_effect)
  have b: "\<forall>ev. (\<forall>t. ev \<noteq> Observe t) \<and> (\<forall>m. ev \<noteq> SetAutoExport m) \<and>
               (\<forall>name. ev \<noteq> PreferenceChanged name) \<longrightarrow>
               trig (step e ev s) = trig s"
    using other_events_keep_trig [OF inv] by blast
  show ?thesis
    by (intro conjI) (rule a1 a2 a3 c d f b)+
qed

theorem trigger_controller_sets_flag_witness:
  "stopped (scheduler (exec env_ok [SetAutoExport Off, Observe IdleTopic]
      (AutoExport_init (module_load False Immediate [example_ae])))) \<and>
   \<not> stopped (scheduler (exec env_ok [SetAutoExport Idle, SetAutoExport Immediate, Observe Active]
      (AutoExport_init (module_load True Off [example_ae])))) \<and>
   \<not> stopped (scheduler (step env_ok (Observe IdleTopic) (exec env_ok [SetAutoExport Idle]
      (AutoExport_init (module_load False Off [example_ae]))))) \<and>
   stopped (scheduler (step env_ok (Observe Active) (exec env_ok mode_then_idle
      (AutoExport_init (module_load False Off [example_ae]))))) \<and>
   stopped (scheduler (step env_ok (Observe Back) (exec env_ok mode_then_idle
      (AutoExport_init (module_load False Off [example_ae])))))"
proof -
  have a: "pref (exec env_ok [SetAutoExport Off, Observe IdleTopic]
      (AutoExport_init (module_load False Immediate [example_ae]))) = Off"
    by code_simp
  have b: "pref (exec env_ok [SetAutoExport Idle, SetAutoExport Immediate, Observe Active]
      (AutoExport_init (module_load True Off [example_ae]))) = Immediate"
    by code_simp
  have c: "pref (exec env_ok [SetAutoExport Idle]
      (AutoExport_init (module_load False Off [example_ae]))) = Idle"
    by code_simp
  have d: "pref (exec env_ok mode_then_idle
      (AutoExport_init (module_load False Off [example_ae]))) = Idle"
    by code_simp
  have 1: "stopped (scheduler (exec env_ok [SetAutoExport Off, Observe IdleTopic]
      (AutoExport_init (module_load False Immediate [example_ae]))))"
    using a trigger_controller_sets_flag
      [of env_ok "[SetAutoExport Off, Observe IdleTopic]" False Immediate "[example_ae]"]
    by blast
  have 2: "\<not> stopped (scheduler (exec env_ok [SetAutoExport Idle, SetAutoExport Immediate, Observe Active]
      (AutoExport_init (module_load True Off [example_ae]))))"
    using b trigger_controller_sets_flag
      [of env_ok "[SetAutoExport Idle, SetAutoExport Immediate, Observe Active]" True Off "[example_ae]"]
    by blast
  have 3: "\<not> stopped (scheduler (step env_ok (Observe IdleTopic) (exec env_ok [SetAutoExport Idle]
      (AutoExport_init (module_load False Off [example_ae])))))"
    using c trigger_controller_sets_flag
      [of env_ok "[SetAutoExport Idle]" False Off "[example_ae]"]
    by simp
  have 4: "stopped (scheduler (step env_ok (Observe Active) (exec env_ok mode_then_idle
      (AutoExport_init (module_load False Off [example_ae])))))"
    "stopped (scheduler (step env_ok (Observe Back) (exec env_ok mode_then_idle
      (AutoExport_init (module_load False Off [example_ae])))))"
    using d trigger_controller_sets_flag
      [of env_ok mode_then_idle False Off "[example_ae]"]
    by simp_all
  show ?thesis
    using 1 2 3 4 by blast
qed

text \<open>
  Claim C6 as the specification states it fails: the flag is not a function of the mode
  and the signal. With the preference set to \<open>Idle\<close> and then the environment idle, the
  queue runs; with the environment idle and then the preference set to \<open>Idle\<close>, the mode
  and the last signal are the same and the queue is stopped.
\<close>

theorem trigger_flag_not_a_function:
  "pref (exec env_ok mode_then_idle (AutoExport_init (module_load False Off [example_ae]))) = Idle \<and>
   signal (exec env_ok mode_then_idle (AutoExport_init (module_load False Off [example_ae]))) =
     Some IdleTopic \<and>
   \<not> stopped (scheduler (exec env_ok mode_then_idle
     (AutoExport_init (module_load False Off [example_ae])))) \<and>
   pref (exec env_ok idle_then_mode (AutoExport_init (module_load False Off [example_ae]))) = Idle \<and>
   signal (exec env_ok idle_then_mode (AutoExport_init (module_load False Off [example_ae]))) =
     Some IdleTopic \<and>
   stopped (scheduler (exec env_ok idle_then_mode
     (AutoExport_init (module_load False Off [example_ae]))))"
  by code_simp

section \<open>Properties of the coordinator's \<^verbatim>\<open>init\<close>\<close>

lemma tasks_cancel_worker [simp]: "tasks (fst (cancel_worker i qh)) = tasks (fst qh)"
  by (simp add: cancel_worker_def split: option.splits)

lemma keys_replace:
  "fst ` set (map (\<lambda>t. if fst t = i then (i, a) else t) ts) = fst ` set ts"
  by (induction ts) auto

lemma keys_store_put: "fst ` set (store_put i a ts) = insert i (fst ` set ts)"
proof (cases "i \<in> fst ` set ts")
  case True
  have "fst ` set (store_put i a ts) = fst ` set ts"
    unfolding store_put_def using True by (simp only: if_True keys_replace)
  with True show ?thesis
    by (simp add: insert_absorb)
next
  case False
  then show ?thesis
    by (simp add: store_put_def)
qed

lemma keys_queue_push:
  "fst ` set (tasks (fst (queue_push a qh))) =
     insert (task_id (snd qh ! a)) (fst ` set (tasks (fst qh)))"
  by (simp add: queue_push_def Let_def keys_store_put)

lemma keys_scheduler_push:
  "fst ` set (tasks (scheduler (scheduler_push i s))) = insert i (fst ` set (tasks (scheduler s)))"
  by (simp add: scheduler_push_def Let_def keys_queue_push)

lemma frame_scheduler_push [simp]:
  "scheduled (scheduler_push i s) = scheduled s"
  "waits (scheduler_push i s) = waits s"
  "DB (scheduler_push i s) = DB s"
  "pref (scheduler_push i s) = pref s"
  by (simp_all add: scheduler_push_def Let_def)

lemma keys_fold_scheduler_push:
  "fst ` set (tasks (scheduler (fold (\<lambda>ae. scheduler_push (ae_loki ae)) xs s))) =
     fst ` set (tasks (scheduler s)) \<union> ae_loki ` set xs"
  by (induction xs arbitrary: s) (auto simp: keys_scheduler_push)

text \<open>
  Claim C3, as the source has it. \<^verbatim>\<open>init()\<close> pushes the records whose status is not
  \<open>Done\<close>, and no others, to the debounce queue \<^verbatim>\<open>scheduler\<close>; it leaves the run
  queue \<^verbatim>\<open>scheduled\<close>, the store and the suspended handlers as they are; and the
  debounce queue is resumed if the preference is \<^verbatim>\<open>immediate\<close> and keeps its flag
  otherwise.
\<close>

theorem init_pushes_to_debounce_queue:
  "scheduled (AutoExport_init s) = scheduled s \<and>
   waits (AutoExport_init s) = waits s \<and>
   DB (AutoExport_init s) = DB s \<and>
   fst ` set (tasks (scheduler (AutoExport_init s))) =
     fst ` set (tasks (scheduler s)) \<union> ae_loki ` {d \<in> set (DB s). ae_status d \<noteq> Done} \<and>
   stopped (scheduler (AutoExport_init s)) = (pref s \<noteq> Immediate \<and> stopped (scheduler s))"
proof -
  let ?push = "\<lambda>ae. scheduler_push (ae_loki ae)"
  let ?found = "db_find (\<lambda>d. ae_status d \<noteq> Done) (DB s)"
  have a: "scheduled (fold ?push ?found s) = scheduled s"
    by (rule fold_keeps) simp
  have b: "waits (fold ?push ?found s) = waits s"
    by (rule fold_keeps) simp
  have c: "DB (fold ?push ?found s) = DB s"
    by (rule fold_keeps) simp
  have d: "set ?found = {d \<in> set (DB s). ae_status d \<noteq> Done}"
    by (simp add: db_find_def)
  have e: "stopped (scheduler (AutoExport_init s)) = (pref s \<noteq> Immediate \<and> stopped (scheduler s))"
    using trig_init [of s] by (simp add: trig_def)
  show ?thesis
    using a b c e keys_fold_scheduler_push [of ?found s]
    by (simp add: AutoExport_init_def Let_def d resume_def)
qed

theorem init_pushes_to_debounce_queue_witness:
  "tasks (scheduled (AutoExport_init example_interrupted)) = [] \<and>
   fst ` set (tasks (scheduler (AutoExport_init example_interrupted))) = {1} \<and>
   \<not> stopped (scheduler (AutoExport_init example_interrupted))"
proof -
  have s: "tasks (scheduled example_interrupted) = []"
    by (simp add: example_interrupted_def module_load_def resume_def new_queue_def)
  have d: "{d \<in> set (DB example_interrupted). ae_status d \<noteq> Done} = {example_ae\<lparr>ae_status := Running\<rparr>}"
    by (auto simp: example_interrupted_def module_load_def)
  have k: "fst ` set (tasks (scheduler example_interrupted)) = {}"
    by (simp add: example_interrupted_def module_load_def new_queue_def)
  have l: "ae_loki (example_ae\<lparr>ae_status := Running\<rparr>) = 1"
    by (simp add: example_ae_def)
  have p: "pref example_interrupted = Immediate"
    by (simp add: example_interrupted_def module_load_def)
  note inst = init_pushes_to_debounce_queue [of example_interrupted]
  from inst have "scheduled (AutoExport_init example_interrupted) = scheduled example_interrupted"
    by (rule conjunct1)
  with s have 1: "tasks (scheduled (AutoExport_init example_interrupted)) = []"
    by simp
  from inst have "fst ` set (tasks (scheduler (AutoExport_init example_interrupted))) =
     fst ` set (tasks (scheduler example_interrupted)) \<union>
     ae_loki ` {d \<in> set (DB example_interrupted). ae_status d \<noteq> Done}"
    by blast
  then have 2: "fst ` set (tasks (scheduler (AutoExport_init example_interrupted))) = {1}"
    by (simp only: d k l image_insert image_empty Un_empty_left)
  from inst have "stopped (scheduler (AutoExport_init example_interrupted)) =
     (pref example_interrupted \<noteq> Immediate \<and> stopped (scheduler example_interrupted))"
    by blast
  with p have 3: "\<not> stopped (scheduler (AutoExport_init example_interrupted))"
    by simp
  from 1 2 3 show ?thesis
    by blast
qed

text \<open>
  Claim C3 as the specification states it fails: a record left \<open>Running\<close> is not in the run
  queue after \<^verbatim>\<open>init()\<close>; it waits in the debounce queue, whose handler suspends in
  the delay before anything reaches the run queue.
\<close>

theorem init_bypasses_nothing:
  "ae_status (example_ae\<lparr>ae_status := Running\<rparr>) \<noteq> Done \<and>
   DB example_interrupted = [example_ae\<lparr>ae_status := Running\<rparr>] \<and>
   tasks (scheduled (AutoExport_init example_interrupted)) = [] \<and>
   tasks (scheduler (AutoExport_init example_interrupted)) = [(1, 0)] \<and>
   waits (scheduler_tick (AutoExport_init example_interrupted)) = [(0, 1)] \<and>
   tasks (scheduled (scheduler_tick (AutoExport_init example_interrupted))) = []"
  by code_simp

section \<open>Properties of the debounce handler\<close>

text \<open>
  Claim C9. When the debounce queue starts a task whose key has no record in the store,
  the handler throws \<open>NotFound\<close> before any delay: no handler is suspended, the worker
  ends with the task reported as failed, and nothing is pushed to the run queue.
\<close>

theorem missing_definition_fails_in_debounce:
  assumes "queue_next (scheduler s) = Some ((i, a), q)"
    and "db_get (task_id (heap s ! a)) (DB s) = None"
  shows "fst (scheduler_handler_begin a (s\<lparr>scheduler := q\<rparr>)) =
           Inl (NotFound (task_id (heap s ! a))) \<and>
         waits (scheduler_tick s) = waits s \<and>
         scheduled (scheduler_tick s) = scheduled s \<and>
         DB (scheduler_tick s) = DB s \<and>
         workers (scheduler (scheduler_tick s)) = [] \<and>
         task_failed (scheduler (scheduler_tick s)) =
           task_failed (scheduler s) @ [(i, NotFound (task_id (heap s ! a)))]"
proof -
  have q: "q = (scheduler s)\<lparr>tasks := tl (tasks (scheduler s)), workers := [(i, a)]\<rparr>"
    using assms(1) by (auto simp: queue_next_def split: if_splits list.splits)
  have h: "scheduler_handler_begin a (s\<lparr>scheduler := q\<rparr>) =
             (Inl (NotFound (task_id (heap s ! a))),
              s\<lparr>scheduler := q, heap := heap s @ [heap s ! a]\<rparr>)"
    using assms(2) by (simp add: scheduler_handler_begin_def Let_def)
  show ?thesis
    using assms(1) h by (simp add: scheduler_tick_def scheduler_process_def queue_cb_def q)
qed

theorem missing_definition_fails_in_debounce_witness:
  "waits (scheduler_tick (scheduler_push 5 example_state)) = [] \<and>
   tasks (scheduled (scheduler_tick (scheduler_push 5 example_state))) = [] \<and>
   task_failed (scheduler (scheduler_tick (scheduler_push 5 example_state))) = [(5, NotFound 5)]"
proof -
  have n: "queue_next (scheduler (scheduler_push 5 example_state)) =
             Some ((5, 0), (scheduler (scheduler_push 5 example_state))\<lparr>tasks := [], workers := [(5, 0)]\<rparr>)"
    by code_simp
  have g: "db_get (task_id (heap (scheduler_push 5 example_state) ! 0))
             (DB (scheduler_push 5 example_state)) = None"
    by code_simp
  have w: "waits (scheduler_push 5 example_state) = []"
    by code_simp
  have t: "tasks (scheduled (scheduler_push 5 example_state)) = []"
    by code_simp
  have f: "task_failed (scheduler (scheduler_push 5 example_state)) = []"
    by code_simp
  have i: "task_id (heap (scheduler_push 5 example_state) ! 0) = 5"
    by code_simp
  show ?thesis
    using missing_definition_fails_in_debounce [OF n g] by (simp only: w t f i append_Nil simp_thms)
qed

section \<open>Properties of the change router\<close>

lemma set_set_add [simp]: "set (set_add x xs) = insert x (set xs)"
  by (auto simp: set_add_def)

lemma distinct_set_add [simp]: "distinct (set_add x xs) = distinct xs"
  by (simp add: set_add_def)

lemma ancestry_self: "c \<in> ancestry parentID c"
  by (simp add: ancestry_def)

lemma ancestry_None: "parentID c = None \<Longrightarrow> ancestry parentID c = {c}"
  by (auto simp: ancestry_def parent_rel_def elim: converse_rtranclE)

lemma ancestry_Some: "parentID c = Some p \<Longrightarrow> ancestry parentID c = insert c (ancestry parentID p)"
proof (rule set_eqI)
  fix a
  assume p: "parentID c = Some p"
  show "a \<in> ancestry parentID c \<longleftrightarrow> a \<in> insert c (ancestry parentID p)"
  proof
    assume "a \<in> ancestry parentID c"
    then have "(c, a) \<in> (parent_rel parentID)\<^sup>*"
      by (simp add: ancestry_def)
    then show "a \<in> insert c (ancestry parentID p)"
      using p by (cases rule: converse_rtranclE) (auto simp: ancestry_def parent_rel_def)
  next
    assume "a \<in> insert c (ancestry parentID p)"
    moreover have "(c, p) \<in> parent_rel parentID"
      using p by (simp add: parent_rel_def)
    ultimately show "a \<in> ancestry parentID c"
      by (auto simp: ancestry_def intro: converse_rtrancl_into_rtrancl)
  qed
qed

lemma ancestry_trans: "a \<in> ancestry parentID c \<Longrightarrow> ancestry parentID a \<subseteq> ancestry parentID c"
  by (auto simp: ancestry_def)

lemma walk_forest:
  assumes "forest parentID depth"
  shows "\<exists>r. walk parentID c seen = Some r \<and>
             set r = set seen \<union> (if c = 0 then {} else ancestry parentID c) \<and>
             distinct r = distinct seen"
proof (induction "depth c" arbitrary: c seen rule: less_induct)
  case less
  show ?case
  proof (cases "c = 0")
    case True
    then show ?thesis
      by (subst walk.simps) simp
  next
    case False
    show ?thesis
    proof (cases "parentID c")
      case None
      then show ?thesis
        using False by (subst walk.simps) (simp add: ancestry_None)
    next
      case (Some p)
      then have p: "p \<noteq> 0" "depth p < depth c"
        using assms by (auto simp: forest_def)
      have w: "walk parentID c seen = walk parentID p (set_add c seen)"
        using False Some by (subst walk.simps) simp
      obtain r where r: "walk parentID p (set_add c seen) = Some r"
        "set r = set (set_add c seen) \<union> ancestry parentID p"
        "distinct r = distinct (set_add c seen)"
        using less [OF p(2), of "set_add c seen"] p(1) by auto
      have anc: "ancestry parentID c = insert c (ancestry parentID p)"
        using Some by (rule ancestry_Some)
      show ?thesis
        using r w False by (auto simp: anc)
    qed
  qed
qed

lemma ancestor_closed_empty: "ancestor_closed parentID {}"
  by (simp add: ancestor_closed_def)

lemma ancestor_closed_Un:
  "ancestor_closed parentID S \<Longrightarrow> ancestor_closed parentID (S \<union> ancestry parentID c)"
  unfolding ancestor_closed_def using ancestry_trans [of _ parentID c] by blast

lemma ancestor_closed_absorb:
  "ancestor_closed parentID S \<Longrightarrow> c \<in> S \<Longrightarrow> S \<union> ancestry parentID c = S"
  unfolding ancestor_closed_def by blast

lemma item_collections_returns:
  assumes "forest parentID depth"
  shows "\<exists>r. item_collections parentID cs seen = Some r \<and> distinct r = distinct seen"
proof (induction cs arbitrary: seen)
  case Nil
  then show ?case by simp
next
  case (Cons c cs)
  show ?case
  proof (cases "c \<in> set seen")
    case True
    then show ?thesis
      using Cons [of seen] by simp
  next
    case False
    obtain w where w: "walk parentID c seen = Some w" "distinct w = distinct seen"
      using walk_forest [OF assms, of c seen] by blast
    then show ?thesis
      using False Cons [of w] by simp
  qed
qed

lemma item_collections_set:
  assumes "forest parentID depth"
  shows "item_collections parentID cs seen = Some r \<Longrightarrow> 0 \<notin> set cs \<Longrightarrow>
         ancestor_closed parentID (set seen) \<Longrightarrow>
         set r = set seen \<union> (\<Union>c \<in> set cs. ancestry parentID c) \<and>
         ancestor_closed parentID (set r)"
proof (induction cs arbitrary: seen)
  case Nil
  then show ?case by simp
next
  case (Cons c cs)
  have c: "c \<noteq> 0" and cs: "0 \<notin> set cs"
    using Cons.prems(2) by auto
  show ?case
  proof (cases "c \<in> set seen")
    case True
    then have "item_collections parentID cs seen = Some r"
      using Cons.prems(1) by simp
    then have "set r = set seen \<union> (\<Union>c \<in> set cs. ancestry parentID c) \<and>
               ancestor_closed parentID (set r)"
      using cs Cons.prems(3) by (rule Cons.IH)
    moreover have "set seen \<union> ancestry parentID c = set seen"
      using Cons.prems(3) True by (rule ancestor_closed_absorb)
    ultimately show ?thesis
      by auto
  next
    case False
    obtain w where w: "walk parentID c seen = Some w"
      "set w = set seen \<union> (if c = 0 then {} else ancestry parentID c)"
      using walk_forest [OF assms, of c seen] by blast
    have sw: "set w = set seen \<union> ancestry parentID c"
      using w(2) c by simp
    have "item_collections parentID cs w = Some r"
      using Cons.prems(1) False w(1) by simp
    moreover have "ancestor_closed parentID (set w)"
      unfolding sw using Cons.prems(3) by (rule ancestor_closed_Un)
    ultimately have "set r = set w \<union> (\<Union>c \<in> set cs. ancestry parentID c) \<and>
                     ancestor_closed parentID (set r)"
      using cs by (intro Cons.IH)
    then show ?thesis
      unfolding sw by auto
  qed
qed

lemma changed_sets_returns:
  assumes "forest parentID depth"
  shows "\<exists>r. changed_sets parentID its ch = Some r \<and>
             distinct (fst r) = distinct (fst ch) \<and>
             distinct (snd r) = distinct (snd ch) \<and>
             set (snd r) = set (snd ch) \<union> libraryID ` set its"
proof (induction its arbitrary: ch)
  case Nil
  then show ?case by simp
next
  case (Cons it its)
  obtain cols where cols: "item_collections parentID (getCollections it) (fst ch) = Some cols"
    "distinct cols = distinct (fst ch)"
    using item_collections_returns [OF assms] by blast
  obtain r where r: "changed_sets parentID its (cols, set_add (libraryID it) (snd ch)) = Some r"
    "distinct (fst r) = distinct cols"
    "distinct (snd r) = distinct (set_add (libraryID it) (snd ch))"
    "set (snd r) = set (set_add (libraryID it) (snd ch)) \<union> libraryID ` set its"
    using Cons [of "(cols, set_add (libraryID it) (snd ch))"] by auto
  have "changed_sets parentID (it # its) ch = Some r"
    using cols(1) r(1) by (simp add: Let_def)
  then show ?case
    using cols(2) r(2,3,4) by auto
qed

lemma changed_sets_collections:
  assumes "forest parentID depth"
  shows "changed_sets parentID its ch = Some r \<Longrightarrow>
         \<forall>it \<in> set its. 0 \<notin> set (getCollections it) \<Longrightarrow>
         ancestor_closed parentID (set (fst ch)) \<Longrightarrow>
         set (fst r) = set (fst ch) \<union> touched parentID its"
proof (induction its arbitrary: ch)
  case Nil
  then show ?case by (simp add: touched_def)
next
  case (Cons it its)
  obtain cols where cols: "item_collections parentID (getCollections it) (fst ch) = Some cols"
    using item_collections_returns [OF assms] by blast
  have nz: "0 \<notin> set (getCollections it)"
    using Cons.prems(2) by simp
  have s: "set cols = set (fst ch) \<union> (\<Union>c \<in> set (getCollections it). ancestry parentID c)"
    and cl: "ancestor_closed parentID (set cols)"
    using item_collections_set [OF assms cols nz Cons.prems(3)] by blast+
  have "changed_sets parentID its (cols, set_add (libraryID it) (snd ch)) = Some r"
    using Cons.prems(1) cols by (simp add: Let_def)
  moreover have "\<forall>it \<in> set its. 0 \<notin> set (getCollections it)"
    using Cons.prems(2) by simp
  ultimately have "set (fst r) = set (fst (cols, set_add (libraryID it) (snd ch))) \<union> touched parentID its"
    using cl by (intro Cons.IH) simp_all
  then show ?case
    using s by (auto simp: touched_def)
qed

lemma forest_nested: "forest nested_parent (\<lambda>c. c)"
  by (simp add: forest_def nested_parent_def)

text \<open>
  Claim C7. Where the collections form a forest and identities are positive,
  \<^verbatim>\<open>changed(items)\<close> returns; its set of collections holds each collection of each item
  with its chain of ancestors and nothing else, each once; its set of libraries holds the
  library of each item, each once; and each of the two events is emitted only for a set
  that is not empty, the collections first. For an item in collection \<open>c3\<close>, whose
  parent is \<open>c2\<close>, whose parent is \<open>c1\<close>, which has no parent, the set of collections
  is \<open>{c1, c2, c3}\<close>.
\<close>

theorem changed_touches_ancestors:
  "(forest parentID depth \<and> (\<forall>it \<in> set its. 0 \<notin> set (getCollections it)) \<longrightarrow>
      (\<exists>cs ls. changed_sets parentID its ([], []) = Some (cs, ls) \<and>
         set cs = touched parentID its \<and> distinct cs \<and>
         set ls = libraryID ` set its \<and> distinct ls \<and>
         changed parentID its =
           Some ((if cs \<noteq> [] then [CollectionsChanged cs] else []) @
                 (if ls \<noteq> [] then [LibrariesChanged ls] else [])))) \<and>
   (c3 \<noteq> 0 \<and> parentID c3 = Some c2 \<and> c2 \<noteq> 0 \<and> parentID c2 = Some c1 \<and> c1 \<noteq> 0 \<and>
    parentID c1 = None \<longrightarrow>
      changed parentID [\<lparr>libraryID = l, getCollections = [c3]\<rparr>] =
        Some [CollectionsChanged [c3, c2, c1], LibrariesChanged [l]] \<and>
      set [c3, c2, c1] = {c1, c2, c3})"
proof (intro conjI impI)
  assume a: "forest parentID depth \<and> (\<forall>it \<in> set its. 0 \<notin> set (getCollections it))"
  obtain r where r: "changed_sets parentID its ([], []) = Some r"
    "distinct (fst r) = distinct (fst ([]::nat list, []::nat list))"
    "distinct (snd r) = distinct (snd ([]::nat list, []::nat list))"
    "set (snd r) = set (snd ([]::nat list, []::nat list)) \<union> libraryID ` set its"
    using changed_sets_returns [of parentID depth its "([], [])"] a by blast
  have "set (fst r) = set (fst ([]::nat list, []::nat list)) \<union> touched parentID its"
    using a r(1) by (intro changed_sets_collections [of parentID depth]) (simp_all add: ancestor_closed_empty)
  then show "\<exists>cs ls. changed_sets parentID its ([], []) = Some (cs, ls) \<and>
         set cs = touched parentID its \<and> distinct cs \<and>
         set ls = libraryID ` set its \<and> distinct ls \<and>
         changed parentID its =
           Some ((if cs \<noteq> [] then [CollectionsChanged cs] else []) @
                 (if ls \<noteq> [] then [LibrariesChanged ls] else []))"
    using r by (intro exI [of _ "fst r"] exI [of _ "snd r"]) (simp add: changed_def)
next
  assume b: "c3 \<noteq> 0 \<and> parentID c3 = Some c2 \<and> c2 \<noteq> 0 \<and> parentID c2 = Some c1 \<and> c1 \<noteq> 0 \<and>
    parentID c1 = None"
  then have d: "c2 \<noteq> c3" "c1 \<noteq> c3" "c1 \<noteq> c2"
    by auto
  have "walk parentID c1 [c3, c2] = Some [c3, c2, c1]"
    using b d by (subst walk.simps) (simp add: set_add_def)
  then have "walk parentID c2 [c3] = Some [c3, c2, c1]"
    using b d by (subst walk.simps) (simp add: set_add_def)
  then have "walk parentID c3 [] = Some [c3, c2, c1]"
    using b by (subst walk.simps) (simp add: set_add_def)
  then show "changed parentID [\<lparr>libraryID = l, getCollections = [c3]\<rparr>] =
        Some [CollectionsChanged [c3, c2, c1], LibrariesChanged [l]]"
    by (simp add: changed_def Let_def set_add_def)
  show "set [c3, c2, c1] = {c1, c2, c3}"
    by auto
qed

theorem changed_touches_ancestors_witness:
  "(\<exists>cs ls. changed_sets nested_parent [nested_item] ([], []) = Some (cs, ls) \<and>
      set cs = touched nested_parent [nested_item] \<and> distinct cs \<and> set ls = {9}) \<and>
   changed nested_parent [nested_item] =
     Some [CollectionsChanged [3, 2, 1], LibrariesChanged [9]]"
proof -
  have a: "forest nested_parent (\<lambda>c. c) \<and> (\<forall>it \<in> set [nested_item]. 0 \<notin> set (getCollections it))"
    using forest_nested by (simp add: nested_item_def)
  have b: "(3::nat) \<noteq> 0 \<and> nested_parent 3 = Some 2 \<and> (2::nat) \<noteq> 0 \<and> nested_parent 2 = Some 1 \<and>
           (1::nat) \<noteq> 0 \<and> nested_parent 1 = None"
    by (simp add: nested_parent_def)
  note inst = changed_touches_ancestors [of nested_parent "\<lambda>c. c" "[nested_item]" 3 2 1 9]
  have "\<exists>cs ls. changed_sets nested_parent [nested_item] ([], []) = Some (cs, ls) \<and>
      set cs = touched nested_parent [nested_item] \<and> distinct cs \<and> set ls = {9}"
    using inst a by (auto simp: nested_item_def)
  moreover have "changed nested_parent [nested_item] =
     Some [CollectionsChanged [3, 2, 1], LibrariesChanged [9]]"
    using inst b by (simp add: nested_item_def)
  ultimately show ?thesis
    by blast
qed

text \<open>
  Claim C10. Where the collections form a forest, \<^verbatim>\<open>changed(items)\<close> on a batch that
  is not empty returns and emits \<^verbatim>\<open>libraries-changed\<close> with the libraries of the items;
  an item that is in no collection gives that event alone.
\<close>

theorem nonempty_batch_emits_libraries_changed:
  "(forest parentID depth \<and> its \<noteq> [] \<longrightarrow>
      (\<exists>evs ls. changed parentID its = Some evs \<and> LibrariesChanged ls \<in> set evs \<and>
         set ls = libraryID ` set its)) \<and>
   changed parentID [\<lparr>libraryID = l, getCollections = []\<rparr>] = Some [LibrariesChanged [l]]"
proof (intro conjI impI)
  assume a: "forest parentID depth \<and> its \<noteq> []"
  obtain r where r: "changed_sets parentID its ([], []) = Some r"
    "set (snd r) = set (snd ([]::nat list, []::nat list)) \<union> libraryID ` set its"
    using changed_sets_returns [of parentID depth its "([], [])"] a by blast
  have "snd r \<noteq> []"
    using r(2) a by auto
  then show "\<exists>evs ls. changed parentID its = Some evs \<and> LibrariesChanged ls \<in> set evs \<and>
         set ls = libraryID ` set its"
    using r by (intro exI [of _ "(if fst r \<noteq> [] then [CollectionsChanged (fst r)] else []) @
        [LibrariesChanged (snd r)]"] exI [of _ "snd r"]) (simp add: changed_def)
next
  show "changed parentID [\<lparr>libraryID = l, getCollections = []\<rparr>] = Some [LibrariesChanged [l]]"
    by (simp add: changed_def Let_def set_add_def)
qed

theorem nonempty_batch_emits_libraries_changed_witness:
  "(\<exists>evs ls. changed nested_parent [nested_item] = Some evs \<and>
      LibrariesChanged ls \<in> set evs \<and> set ls = {9}) \<and>
   changed nested_parent [\<lparr>libraryID = 9, getCollections = []\<rparr>] = Some [LibrariesChanged [9]]"
proof -
  have a: "forest nested_parent (\<lambda>c. c) \<and> [nested_item] \<noteq> []"
    using forest_nested by simp
  note inst = nonempty_batch_emits_libraries_changed [of nested_parent "\<lambda>c. c" "[nested_item]" 9]
  have "\<exists>evs ls. changed nested_parent [nested_item] = Some evs \<and>
      LibrariesChanged ls \<in> set evs \<and> set ls = {9}"
    using inst a by (auto simp: nested_item_def)
  then show ?thesis
    using inst by blast
qed

section \<open>The debounce handler and cancellation\<close>

text \<open>
  Claim C1 on a concrete run. Collection 7 changes twice, and the debounce queue starts
  each task as it arrives. The second push cancels the first worker: the flag is set on
  the task object the queue holds (address 0), not on the copy the first handler reads
  (address 1). Two handlers are suspended for the same key; when the first delay elapses
  the key is pushed to the run queue, the run queue executes it, and when the second delay
  elapses the key is pushed again.
\<close>

theorem burst_promotes_twice:
  "waits (exec env_ok burst example_state) = [(0, 1), (2, 3)] \<and>
   map (\<lambda>w. task_id (heap (exec env_ok burst example_state) ! snd w))
     (waits (exec env_ok burst example_state)) = [1, 1] \<and>
   cancelled (heap (exec env_ok burst example_state) ! 0) \<and>
   \<not> cancelled (heap (exec env_ok burst example_state) ! 1) \<and>
   tasks (scheduled (exec env_ok (burst @ [Wake (0, 1)]) example_state)) = [(1, 1)] \<and>
   tasks (scheduled (exec env_ok (burst @ [Wake (0, 1), ScheduledTick]) example_state)) = [] \<and>
   tasks (scheduled (exec env_ok (burst @ [Wake (0, 1), ScheduledTick, Wake (2, 3)])
     example_state)) = [(1, 3)]"
  by code_simp

text \<open>
  Claim C2 on a concrete run. The key 1 is pushed and its handler suspended; then
  \<^verbatim>\<open>scheduler.cancel(1)\<close> is called. The store is left as it was and the flag is set on
  the queue's task object, but the handler's copy is not cancelled: when the delay elapses
  the key is pushed to the run queue, which exports the record.
\<close>

theorem cancel_does_not_stop_promotion:
  "waits (scheduler_tick (scheduler_push 1 example_state)) = [(0, 1)] \<and>
   DB (scheduler_cancel 1 (scheduler_tick (scheduler_push 1 example_state))) =
     DB (scheduler_tick (scheduler_push 1 example_state)) \<and>
   cancelled (heap (scheduler_cancel 1 (scheduler_tick (scheduler_push 1 example_state))) ! 0) \<and>
   \<not> cancelled (heap (scheduler_cancel 1 (scheduler_tick (scheduler_push 1 example_state))) ! 1) \<and>
   tasks (scheduled (wake (0, 1)
     (scheduler_cancel 1 (scheduler_tick (scheduler_push 1 example_state))))) = [(1, 1)] \<and>
   map ae_status (DB (scheduled_tick env_ok (wake (0, 1)
     (scheduler_cancel 1 (scheduler_tick (scheduler_push 1 example_state)))))) = [Done]"
  by code_simp

section \<open>Removal while a debounce handler waits\<close>

text \<open>
  Claim C5 on a concrete run. Collection 7 changes and the handler of the debounce queue
  is suspended for key 1; then collection 7 is removed. \<^verbatim>\<open>remove\<close> deletes the record,
  and \<^verbatim>\<open>scheduler.cancel(1)\<close> sets the flag on the queue's task object (address 0) and
  gives the worker up, but the handler's copy (address 1) is not cancelled and the handler
  stays suspended. When the delay elapses it pushes key 1 to the run queue: a run entry for
  the removed record, which the run queue starts and which fails with \<open>NotFound\<close>.
\<close>

theorem remove_leaves_wait_to_promote:
  "waits (exec env_ok removed_in_flight example_state) = [(0, 1)] \<and>
   map ae_loki (DB (exec env_ok removed_in_flight example_state)) = [] \<and>
   tasks (scheduler (exec env_ok removed_in_flight example_state)) = [] \<and>
   workers (scheduler (exec env_ok removed_in_flight example_state)) = [] \<and>
   cancelled (heap (exec env_ok removed_in_flight example_state) ! 0) \<and>
   \<not> cancelled (heap (exec env_ok removed_in_flight example_state) ! 1) \<and>
   tasks (scheduled (exec env_ok (removed_in_flight @ [Wake (0, 1)]) example_state)) =
     [(1, 1)] \<and>
   started ScheduledTick (exec env_ok (removed_in_flight @ [Wake (0, 1)]) example_state) =
     Some 1 \<and>
   task_failed (scheduled (exec env_ok (removed_in_flight @ [Wake (0, 1), ScheduledTick])
     example_state)) = [(1, NotFound 1)]"
  by code_simp

end
